theory Spec2Isabelle
  imports Complex_Main "HOL-Library.Word"
begin

unbundle bit_operations_syntax

section \<open>The open-addressing map of \<^verbatim>\<open>flat_buffered_unordered_map.cpp\<close>\<close>

text \<open>
  The class template \<^verbatim>\<open>flat_unordered_map<Key, T, Hash, KeyEq>\<close> is embedded as
  functions over a record of its data members.

  \<^item> \<^verbatim>\<open>size_type\<close> is \<^verbatim>\<open>std::size_t\<close>, taken as 64 bits wide: a \<open>64 word\<close>, so
    that \<open>+\<close>, \<open>-\<close> and \<open>*\<close> wrap exactly as the unsigned arithmetic of the source.
  \<^item> \<^verbatim>\<open>float\<close> is modelled by the value a float denotes: a rational, an infinity or
    NaN, with the comparisons of IEEE 754 (every comparison with NaN is false).
    Arithmetic on finite values is exact: rounding is not modelled. The float
    literals of the source stand for the binary values they round to.
  \<^item> \<^verbatim>\<open>KeyEq\<close> is the default \<^verbatim>\<open>std::equal_to<Key>\<close>: equality of keys. The hash
    function object is the member \<^verbatim>\<open>hasher_\<close>, the field \<open>m_hasher\<close>.
  \<^item> \<^verbatim>\<open>Key()\<close> and \<^verbatim>\<open>T()\<close>, the value-initialised key and value of a fresh bucket,
    are the constant \<open>default\<close> of the type class of that name.
  \<^item> A loop \<^verbatim>\<open>for (;;)\<close> and the recursion between \<^verbatim>\<open>rehash\<close> and
    \<^verbatim>\<open>insert_or_assign_impl\<close> are bounded by a fuel argument: the result \<open>None\<close>
    says that the call has not returned within that many steps.
  \<^item> A call that returns gives \<open>Inr\<close> of its result and the table after the call; a
    call that throws gives \<open>Inl\<close> of the exception and the table as the throw
    leaves it.
\<close>

subsection \<open>Data\<close>

type_synonym size_type = "64 word"

datatype State = Empty | Filled | Deleted

text \<open>
  A data member \<^verbatim>\<open>name_\<close> of the source is the field \<open>m_name\<close>, and the member
  \<^verbatim>\<open>value\<close> of a bucket is the field \<open>val\<close>.
\<close>

record ('k, 'v) Bucket =
  key :: 'k
  val :: 'v
  state :: State

datatype cfloat = Finite rat | PInf | NInf | NaN

datatype error = invalid_argument | length_error | undefined_conversion

record ('k, 'v) flat_unordered_map =
  m_buckets :: "('k, 'v) Bucket list"
  m_size :: size_type
  m_tombstones :: size_type
  m_max_load_factor :: cfloat
  m_hasher :: "'k \<Rightarrow> size_type"

type_synonym ('k, 'v, 'r) outcome =
  "(error \<times> ('k, 'v) flat_unordered_map + 'r \<times> ('k, 'v) flat_unordered_map) option"

subsection \<open>Floats\<close>

text \<open>The comparisons \<^verbatim>\<open><\<close>, \<^verbatim>\<open><=\<close>, \<^verbatim>\<open>>\<close> and \<^verbatim>\<open>>=\<close> on floats.\<close>

fun flt_less :: "cfloat \<Rightarrow> cfloat \<Rightarrow> bool" where
  "flt_less NaN y = False"
| "flt_less x NaN = False"
| "flt_less (Finite a) (Finite b) = (a < b)"
| "flt_less (Finite a) PInf = True"
| "flt_less (Finite a) NInf = False"
| "flt_less PInf y = False"
| "flt_less NInf NInf = False"
| "flt_less NInf y = True"

definition flt_le :: "cfloat \<Rightarrow> cfloat \<Rightarrow> bool" where
  "flt_le x y = (flt_less x y \<or> (x \<noteq> NaN \<and> x = y))"

definition flt_gt :: "cfloat \<Rightarrow> cfloat \<Rightarrow> bool" where
  "flt_gt x y = flt_less y x"

definition flt_ge :: "cfloat \<Rightarrow> cfloat \<Rightarrow> bool" where
  "flt_ge x y = flt_le y x"

text \<open>
  Division. A zero divisor gives an infinity of the dividend's sign, and NaN for
  \<open>0 / 0\<close> (the sign of a zero is not modelled; the program never divides by one).
\<close>

fun flt_div :: "cfloat \<Rightarrow> cfloat \<Rightarrow> cfloat" where
  "flt_div NaN y = NaN"
| "flt_div x NaN = NaN"
| "flt_div (Finite a) (Finite b) =
     (if b \<noteq> 0 then Finite (a / b)
      else if a = 0 then NaN else if 0 < a then PInf else NInf)"
| "flt_div (Finite a) y = Finite 0"
| "flt_div x (Finite b) =
     (if (x = PInf) = (0 \<le> b) then PInf else NInf)"
| "flt_div x y = NaN"

text \<open>\<^verbatim>\<open>static_cast<float>(n)\<close> for a \<^verbatim>\<open>size_type\<close> \<open>n\<close>.\<close>

definition flt_of_size :: "size_type \<Rightarrow> cfloat" where
  "flt_of_size n = Finite (of_nat (unat n))"

text \<open>
  \<^verbatim>\<open>static_cast<size_type>(x)\<close> for a float \<open>x\<close>: truncation towards zero. The
  behaviour is undefined (\<open>None\<close>) when the truncated value is not a value of
  \<^verbatim>\<open>size_type\<close>.
\<close>

fun size_of_flt :: "cfloat \<Rightarrow> size_type option" where
  "size_of_flt (Finite a) =
     (if - 1 < a \<and> a < 2 ^ 64 then Some (word_of_int (if a < 0 then 0 else \<lfloor>a\<rfloor>)) else None)"
| "size_of_flt x = None"

text \<open>The literals \<^verbatim>\<open>0.7f\<close>, \<^verbatim>\<open>0.1f\<close> and \<^verbatim>\<open>0.95f\<close>.\<close>

definition flt_0_7 :: cfloat where
  "flt_0_7 = Finite (11744051 / 2 ^ 24)"

definition flt_0_1 :: cfloat where
  "flt_0_1 = Finite (13421773 / 2 ^ 27)"

definition flt_0_95 :: cfloat where
  "flt_0_95 = Finite (15938355 / 2 ^ 24)"

subsection \<open>Private members\<close>

text \<open>
  \<^verbatim>\<open>std::vector::max_size()\<close>: \<^verbatim>\<open>assign\<close> and \<^verbatim>\<open>resize\<close> throw
  \<^verbatim>\<open>std::length_error\<close> beyond it. It is at most \<^verbatim>\<open>PTRDIFF_MAX\<close> divided by the size
  of a bucket; the model takes the largest value this can have. An allocation
  within \<open>max_size\<close> succeeds.
\<close>

definition max_size :: size_type where
  "max_size = 2 ^ 63 - 1"

text \<open>\<^verbatim>\<open>Bucket()\<close>: value-initialised key and value, state Empty.\<close>

definition Bucket0 :: "('k::default, 'v::default) Bucket" where
  "Bucket0 = \<lparr>key = default, val = default, state = Empty\<rparr>"

text \<open>
  \<^verbatim>\<open>next_pow2\<close>. The loop runs with \<open>i = 1, 2, 4, 8, 16, 32\<close>
  (\<^verbatim>\<open>sizeof(size_type) * 8\<close> is 64).
\<close>

fun smear :: "nat list \<Rightarrow> size_type \<Rightarrow> size_type" where
  "smear [] x = x"
| "smear (i # is) x = smear is (x OR drop_bit i x)"

definition next_pow2 :: "size_type \<Rightarrow> size_type" where
  "next_pow2 x = (if x < 2 then 2 else smear [1, 2, 4, 8, 16, 32] (x - 1) + 1)"

text \<open>\<^verbatim>\<open>buckets_.size()\<close> as a \<^verbatim>\<open>size_type\<close>.\<close>

definition bsize :: "('k, 'v) flat_unordered_map \<Rightarrow> size_type" where
  "bsize s = of_nat (length (m_buckets s))"

definition cap_mask :: "('k, 'v) flat_unordered_map \<Rightarrow> size_type" where
  "cap_mask s = bsize s - 1"

definition bucket_index :: "('k, 'v) flat_unordered_map \<Rightarrow> 'k \<Rightarrow> size_type" where
  "bucket_index s k = m_hasher s k AND cap_mask s"

definition current_load :: "('k, 'v) flat_unordered_map \<Rightarrow> cfloat" where
  "current_load s = flt_div (flt_of_size (m_size s + m_tombstones s)) (flt_of_size (bsize s))"

text \<open>
  The loop of \<^verbatim>\<open>insert_or_assign_impl\<close> (lines 72 to 94), from slot \<open>idx\<close> with the
  current \<open>first_deleted\<close>; \<open>- 1\<close> is \<^verbatim>\<open>static_cast<size_type>(-1)\<close>. It returns the
  position and whether a new entry was made.
\<close>

fun insert_probe ::
  "nat \<Rightarrow> ('k, 'v) flat_unordered_map \<Rightarrow> 'k \<Rightarrow> 'v \<Rightarrow> size_type \<Rightarrow> size_type \<Rightarrow>
   ((size_type \<times> bool) \<times> ('k, 'v) flat_unordered_map) option" where
  "insert_probe 0 s k v idx first_deleted = None"
| "insert_probe (Suc n) s k v idx first_deleted =
     (let b = m_buckets s ! unat idx in
      if state b = Empty then
        (let target = (if first_deleted = - 1 then idx else first_deleted);
             t = m_buckets s ! unat target
         in Some ((target, True),
              s\<lparr>m_buckets := (m_buckets s)[unat target := \<lparr>key = k, val = v, state = Filled\<rparr>],
                m_size := m_size s + 1,
                m_tombstones := (if state t = Deleted then m_tombstones s - 1 else m_tombstones s)\<rparr>))
      else if state b = Deleted then
        insert_probe n s k v ((idx + 1) AND cap_mask s)
          (if first_deleted = - 1 then idx else first_deleted)
      else if key b = k then
        Some ((idx, False), s\<lparr>m_buckets := (m_buckets s)[unat idx := b\<lparr>val := v\<rparr>]\<rparr>)
      else insert_probe n s k v ((idx + 1) AND cap_mask s) first_deleted)"

text \<open>
  \<^verbatim>\<open>insert_or_assign_impl\<close>, \<^verbatim>\<open>rehash_if_needed\<close>, \<^verbatim>\<open>rehash\<close> and the loop of
  \<^verbatim>\<open>rehash\<close> over the old buckets (lines 118 to 122) call each other. The move
  constructor of \<^verbatim>\<open>std::vector\<close> leaves \<^verbatim>\<open>buckets_\<close> empty, which is the state
  in which \<^verbatim>\<open>assign\<close> throws.
\<close>

fun insert_or_assign_impl ::
    "nat \<Rightarrow> ('k::default, 'v::default) flat_unordered_map \<Rightarrow> 'k \<Rightarrow> 'v \<Rightarrow>
     ('k, 'v, size_type \<times> bool) outcome"
  and rehash_if_needed ::
    "nat \<Rightarrow> ('k, 'v) flat_unordered_map \<Rightarrow> ('k, 'v, unit) outcome"
  and rehash ::
    "nat \<Rightarrow> ('k, 'v) flat_unordered_map \<Rightarrow> size_type \<Rightarrow> ('k, 'v, unit) outcome"
  and rehash_loop ::
    "nat \<Rightarrow> ('k, 'v) flat_unordered_map \<Rightarrow> ('k, 'v) Bucket list \<Rightarrow> ('k, 'v, unit) outcome"
  where
  "insert_or_assign_impl 0 s k v = None"
| "insert_or_assign_impl (Suc n) s k v =
     (case rehash_if_needed n s of
        None \<Rightarrow> None
      | Some (Inl e) \<Rightarrow> Some (Inl e)
      | Some (Inr (u, s1)) \<Rightarrow>
          (case insert_probe n s1 k v (bucket_index s1 k) (- 1) of
             None \<Rightarrow> None
           | Some r \<Rightarrow> Some (Inr r)))"
| "rehash_if_needed 0 s = None"
| "rehash_if_needed (Suc n) s =
     (if m_buckets s = [] \<or> flt_gt (current_load s) (m_max_load_factor s)
      then rehash n s (if m_buckets s = [] then 16 else bsize s * 2)
      else Some (Inr ((), s)))"
| "rehash 0 s new_bucket_count = None"
| "rehash (Suc n) s new_bucket_count =
     (let nbc = next_pow2 new_bucket_count;
          nbc = (if nbc < 2 then 2 else nbc);
          old = m_buckets s
      in if max_size < nbc then Some (Inl (length_error, s\<lparr>m_buckets := []\<rparr>))
         else rehash_loop n
                (s\<lparr>m_buckets := replicate (unat nbc) Bucket0, m_size := 0, m_tombstones := 0\<rparr>) old)"
| "rehash_loop 0 s old = None"
| "rehash_loop (Suc n) s [] = Some (Inr ((), s))"
| "rehash_loop (Suc n) s (b # old) =
     (if state b = Filled then
        (case insert_or_assign_impl n s (key b) (val b) of
           None \<Rightarrow> None
         | Some (Inl e) \<Rightarrow> Some (Inl e)
         | Some (Inr (r, s1)) \<Rightarrow> rehash_loop n s1 old)
      else rehash_loop n s old)"

subsection \<open>Public members\<close>

text \<open>
  The defaulted constructor (the initialisers of the data members) and the
  constructor with a bucket count; \<^verbatim>\<open>resize\<close> throws beyond \<open>max_size\<close>.
\<close>

definition flat_unordered_map_default ::
  "('k \<Rightarrow> size_type) \<Rightarrow> ('k, 'v) flat_unordered_map" where
  "flat_unordered_map_default h =
     \<lparr>m_buckets = [], m_size = 0, m_tombstones = 0, m_max_load_factor = flt_0_7, m_hasher = h\<rparr>"

definition flat_unordered_map_sized ::
  "size_type \<Rightarrow> ('k \<Rightarrow> size_type) \<Rightarrow> error + ('k::default, 'v::default) flat_unordered_map" where
  "flat_unordered_map_sized bucket_count h =
     (let bc = next_pow2 bucket_count
      in if max_size < bc then Inl length_error
         else Inr \<lparr>m_buckets = replicate (unat bc) Bucket0, m_size = 0, m_tombstones = 0,
                    m_max_load_factor = flt_0_7, m_hasher = h\<rparr>)"

text \<open>
  \<^verbatim>\<open>insert_or_assign\<close> returns the flag and a pointer to the stored value: the
  pointer is the position of its bucket.
\<close>

definition insert_or_assign ::
  "nat \<Rightarrow> ('k::default, 'v::default) flat_unordered_map \<Rightarrow> 'k \<Rightarrow> 'v \<Rightarrow>
   ('k, 'v, bool \<times> size_type) outcome" where
  "insert_or_assign n s k v =
     (case insert_or_assign_impl n s k v of
        None \<Rightarrow> None
      | Some (Inl e) \<Rightarrow> Some (Inl e)
      | Some (Inr ((pos, inserted), s1)) \<Rightarrow> Some (Inr ((inserted, pos), s1)))"

text \<open>
  \<^verbatim>\<open>find\<close> (both overloads run the same loop): \<open>Some None\<close> is \<^verbatim>\<open>nullptr\<close>,
  \<open>Some (Some p)\<close> a pointer to the value of the bucket at \<open>p\<close>.
\<close>

fun find_probe ::
  "nat \<Rightarrow> ('k, 'v) flat_unordered_map \<Rightarrow> 'k \<Rightarrow> size_type \<Rightarrow> size_type option option" where
  "find_probe 0 s k idx = None"
| "find_probe (Suc n) s k idx =
     (let b = m_buckets s ! unat idx in
      if state b = Empty then Some None
      else if state b = Filled \<and> key b = k then Some (Some idx)
      else find_probe n s k ((idx + 1) AND cap_mask s))"

definition find_op ::
  "nat \<Rightarrow> ('k, 'v) flat_unordered_map \<Rightarrow> 'k \<Rightarrow> size_type option option" where
  "find_op n s k =
     (if m_buckets s = [] then Some None else find_probe n s k (bucket_index s k))"

text \<open>The slot that a probe starting at \<open>idx\<close> looks at after \<open>j\<close> steps.\<close>

fun probe_at :: "('k, 'v) flat_unordered_map \<Rightarrow> size_type \<Rightarrow> nat \<Rightarrow> size_type" where
  "probe_at s idx 0 = idx"
| "probe_at s idx (Suc j) = probe_at s ((idx + 1) AND cap_mask s) j"

text \<open>\<^verbatim>\<open>operator[]\<close>: the reference it returns is the position of the bucket.\<close>

definition subscript ::
  "nat \<Rightarrow> ('k::default, 'v::default) flat_unordered_map \<Rightarrow> 'k \<Rightarrow> ('k, 'v, size_type) outcome" where
  "subscript n s k =
     (case find_op n s k of
        None \<Rightarrow> None
      | Some (Some p) \<Rightarrow> Some (Inr (p, s))
      | Some None \<Rightarrow>
          (case insert_or_assign n s k default of
             None \<Rightarrow> None
           | Some (Inl e) \<Rightarrow> Some (Inl e)
           | Some (Inr ((inserted, p), s1)) \<Rightarrow> Some (Inr (p, s1))))"

fun erase_probe ::
  "nat \<Rightarrow> ('k::default, 'v::default) flat_unordered_map \<Rightarrow> 'k \<Rightarrow> size_type \<Rightarrow>
   ('k, 'v, bool) outcome" where
  "erase_probe 0 s k idx = None"
| "erase_probe (Suc n) s k idx =
     (let b = m_buckets s ! unat idx in
      if state b = Empty then Some (Inr (False, s))
      else if state b = Filled \<and> key b = k then
        (let s1 = s\<lparr>m_buckets := (m_buckets s)[unat idx := b\<lparr>state := Deleted\<rparr>],
                    m_size := m_size s - 1,
                    m_tombstones := m_tombstones s + 1\<rparr>
         in if bsize s1 div 2 < m_tombstones s1 then
              (case rehash n s1 (bsize s1) of
                 None \<Rightarrow> None
               | Some (Inl e) \<Rightarrow> Some (Inl e)
               | Some (Inr (u, s2)) \<Rightarrow> Some (Inr (True, s2)))
            else Some (Inr (True, s1)))
      else erase_probe n s k ((idx + 1) AND cap_mask s))"

definition erase ::
  "nat \<Rightarrow> ('k::default, 'v::default) flat_unordered_map \<Rightarrow> 'k \<Rightarrow> ('k, 'v, bool) outcome" where
  "erase n s k =
     (if m_buckets s = [] then Some (Inr (False, s))
      else erase_probe n s k (bucket_index s k))"

definition clear :: "('k, 'v) flat_unordered_map \<Rightarrow> ('k, 'v) flat_unordered_map" where
  "clear s = s\<lparr>m_buckets := map (\<lambda>b. b\<lparr>state := Empty\<rparr>) (m_buckets s),
               m_size := 0, m_tombstones := 0\<rparr>"

definition size_op :: "('k, 'v) flat_unordered_map \<Rightarrow> size_type" where
  "size_op s = m_size s"

definition empty_op :: "('k, 'v) flat_unordered_map \<Rightarrow> bool" where
  "empty_op s = (m_size s = 0)"

definition bucket_count :: "('k, 'v) flat_unordered_map \<Rightarrow> size_type" where
  "bucket_count s = bsize s"

definition reserve ::
  "nat \<Rightarrow> ('k::default, 'v::default) flat_unordered_map \<Rightarrow> size_type \<Rightarrow> ('k, 'v, unit) outcome" where
  "reserve fuel s n =
     (case size_of_flt (flt_div (flt_of_size n) (m_max_load_factor s)) of
        None \<Rightarrow> Some (Inl (undefined_conversion, s))
      | Some q \<Rightarrow>
          (let needed = q + 1
           in if bsize s < needed then rehash fuel s needed else Some (Inr ((), s))))"

definition max_load_factor_set ::
  "nat \<Rightarrow> ('k::default, 'v::default) flat_unordered_map \<Rightarrow> cfloat \<Rightarrow> ('k, 'v, unit) outcome" where
  "max_load_factor_set fuel s f =
     (if flt_le f flt_0_1 \<or> flt_ge f flt_0_95 then Some (Inl (invalid_argument, s))
      else rehash_if_needed fuel (s\<lparr>m_max_load_factor := f\<rparr>))"

definition max_load_factor_get :: "('k, 'v) flat_unordered_map \<Rightarrow> cfloat" where
  "max_load_factor_get s = m_max_load_factor s"

subsection \<open>Calls and reachable tables\<close>

text \<open>
  The public interface as a datatype of calls; \<open>perform\<close> gives the table after a
  call, returned or thrown. A table is reachable when a constructor made it or
  a call on a reachable table left it.
\<close>

datatype ('k, 'v) call =
    Insert_or_assign 'k 'v
  | Find 'k
  | Subscript 'k
  | Erase 'k
  | Clear
  | Size
  | Is_empty
  | Bucket_count
  | Reserve size_type
  | Rehash size_type
  | Set_max_load_factor cfloat
  | Get_max_load_factor

definition after ::
  "('k, 'v, 'r) outcome \<Rightarrow> (error \<times> ('k, 'v) flat_unordered_map + ('k, 'v) flat_unordered_map) option" where
  "after r = map_option (map_sum id snd) r"

fun perform ::
  "nat \<Rightarrow> ('k::default, 'v::default) call \<Rightarrow> ('k, 'v) flat_unordered_map \<Rightarrow>
   (error \<times> ('k, 'v) flat_unordered_map + ('k, 'v) flat_unordered_map) option" where
  "perform n (Insert_or_assign k v) s = after (insert_or_assign n s k v)"
| "perform n (Find k) s = map_option (\<lambda>r. Inr s) (find_op n s k)"
| "perform n (Subscript k) s = after (subscript n s k)"
| "perform n (Erase k) s = after (erase n s k)"
| "perform n Clear s = Some (Inr (clear s))"
| "perform n (Reserve m) s = after (reserve n s m)"
| "perform n (Rehash m) s = after (rehash n s m)"
| "perform n (Set_max_load_factor f) s = after (max_load_factor_set n s f)"
| "perform n c s = Some (Inr s)"

inductive reachable :: "('k::default, 'v::default) flat_unordered_map \<Rightarrow> bool" where
  default: "reachable (flat_unordered_map_default h)"
| sized: "flat_unordered_map_sized bc h = Inr s \<Longrightarrow> reachable s"
| returned: "reachable s \<Longrightarrow> perform n c s = Some (Inr s') \<Longrightarrow> reachable s'"
| thrown: "reachable s \<Longrightarrow> perform n c s = Some (Inl (e, s')) \<Longrightarrow> e \<noteq> undefined_conversion \<Longrightarrow> reachable s'"


subsection \<open>Instances for the examples\<close>

text \<open>
  The examples use \<^verbatim>\<open>flat_unordered_map<int, std::string>\<close>, as \<^verbatim>\<open>main\<close> does:
  \<^verbatim>\<open>int()\<close> is 0, \<^verbatim>\<open>std::string()\<close> is the empty string, and \<^verbatim>\<open>std::hash<int>\<close> is
  taken as the conversion to \<^verbatim>\<open>size_t\<close> (as in libstdc++ and libc++).
\<close>

instantiation int :: default
begin

definition default_int :: int where
  "default_int = 0"

instance ..

end

instantiation list :: (type) default
begin

definition default_list :: "'a list" where
  "default_list = []"

instance ..

end

definition hash_int :: "int \<Rightarrow> size_type" where
  "hash_int k = word_of_int k"

definition new_map :: "(int, string) flat_unordered_map" where
  "new_map = flat_unordered_map_default hash_int"

text \<open>
  Tables of the examples. \<open>two_slots\<close> is the table after \<^verbatim>\<open>reserve(1)\<close> on a new map;
  \<open>one_of_two\<close> and \<open>two_of_two\<close> follow it by \<^verbatim>\<open>insert_or_assign(0, "a")\<close> and
  \<^verbatim>\<open>insert_or_assign(1, "b")\<close>, and \<open>two_of_two_erased\<close> by \<^verbatim>\<open>erase(0)\<close>.
\<close>

definition table_of ::
  "(int, string) Bucket list \<Rightarrow> size_type \<Rightarrow> size_type \<Rightarrow> (int, string) flat_unordered_map" where
  "table_of bs n t =
     \<lparr>m_buckets = bs, m_size = n, m_tombstones = t, m_max_load_factor = flt_0_7,
      m_hasher = hash_int\<rparr>"

definition slot :: "int \<Rightarrow> string \<Rightarrow> State \<Rightarrow> (int, string) Bucket" where
  "slot k v st = \<lparr>key = k, val = v, state = st\<rparr>"

definition two_slots :: "(int, string) flat_unordered_map" where
  "two_slots = table_of [slot 0 [] Empty, slot 0 [] Empty] 0 0"

definition one_of_two :: "(int, string) flat_unordered_map" where
  "one_of_two = table_of [slot 0 ''a'' Filled, slot 0 [] Empty] 1 0"

definition two_of_two :: "(int, string) flat_unordered_map" where
  "two_of_two = table_of [slot 0 ''a'' Filled, slot 1 ''b'' Filled] 2 0"

definition two_of_two_erased :: "(int, string) flat_unordered_map" where
  "two_of_two_erased = table_of [slot 0 ''a'' Deleted, slot 1 ''b'' Filled] 1 1"

text \<open>
  \<open>four_slots\<close> is the table after \<^verbatim>\<open>reserve(2)\<close> on a new map, the inserts of the
  keys 0, 4 and 8 (which share the home slot 0) and \<^verbatim>\<open>erase(0)\<close>.
\<close>

definition four_slots :: "(int, string) flat_unordered_map" where
  "four_slots =
     table_of [slot 0 ''a'' Deleted, slot 4 ''b'' Filled, slot 8 ''c'' Filled, slot 0 [] Empty] 2 1"

text \<open>
  Tables of four slots with the load factor \<^verbatim>\<open>0.875f\<close>. \<open>four_full\<close> is the table after
  \<^verbatim>\<open>reserve(2)\<close> on a new map, \<^verbatim>\<open>max_load_factor(0.875f)\<close> and the inserts of the keys
  0, 1, 2 and 3; \<open>four_two_erased\<close> follows it by \<^verbatim>\<open>erase(0)\<close> and \<^verbatim>\<open>erase(1)\<close>, and
  \<open>four_compacted\<close> by \<^verbatim>\<open>erase(2)\<close>.
\<close>

definition table_with ::
  "rat \<Rightarrow> (int, string) Bucket list \<Rightarrow> size_type \<Rightarrow> size_type \<Rightarrow>
   (int, string) flat_unordered_map" where
  "table_with f bs n t =
     \<lparr>m_buckets = bs, m_size = n, m_tombstones = t, m_max_load_factor = Finite f,
      m_hasher = hash_int\<rparr>"

definition four_full :: "(int, string) flat_unordered_map" where
  "four_full =
     table_with (7 / 8)
       [slot 0 ''a'' Filled, slot 1 ''b'' Filled, slot 2 ''c'' Filled, slot 3 ''d'' Filled] 4 0"

definition four_two_erased :: "(int, string) flat_unordered_map" where
  "four_two_erased =
     table_with (7 / 8)
       [slot 0 ''a'' Deleted, slot 1 ''b'' Deleted, slot 2 ''c'' Filled, slot 3 ''d'' Filled] 2 2"

definition four_compacted :: "(int, string) flat_unordered_map" where
  "four_compacted =
     table_with (7 / 8)
       [slot 0 [] Empty, slot 0 [] Empty, slot 0 [] Empty, slot 3 ''d'' Filled] 1 0"


section \<open>Invariants of the table\<close>

text \<open>
  The storage has a length \<open>2 ^ m\<close> with \<open>1 \<le> m\<close>; no allocation exceeds
  \<open>max_size\<close>, so \<open>m \<le> 62\<close>.
\<close>

definition pow2_len :: "('k, 'v) flat_unordered_map \<Rightarrow> bool" where
  "pow2_len s \<longleftrightarrow> (\<exists>m. 1 \<le> m \<and> m \<le> 62 \<and> length (m_buckets s) = 2 ^ m)"

definition storage_ok :: "('k, 'v) flat_unordered_map \<Rightarrow> bool" where
  "storage_ok s \<longleftrightarrow> m_buckets s = [] \<or> pow2_len s"








text \<open>
  The slot \<open>j\<close> steps after slot \<open>i\<close>, and the slots a probe for \<open>k\<close> passes
  over: Deleted ones, and Filled ones with another key.
\<close>

definition walk :: "('k, 'v) flat_unordered_map \<Rightarrow> nat \<Rightarrow> nat \<Rightarrow> nat" where
  "walk s i j = (i + j) mod length (m_buckets s)"

definition skips :: "('k, 'v) flat_unordered_map \<Rightarrow> 'k \<Rightarrow> nat \<Rightarrow> bool" where
  "skips s k i \<longleftrightarrow>
     state (m_buckets s ! i) = Deleted \<or>
     (state (m_buckets s ! i) = Filled \<and> key (m_buckets s ! i) \<noteq> k)"









section \<open>Words\<close>

lemma unat_of_nat_size: "n < 2 ^ 64 \<Longrightarrow> unat (word_of_nat n :: size_type) = n"
  by (simp add: unat_of_nat)

lemma unat_pow2: 
  assumes "j < 64" shows "unat (2 ^ j :: size_type) = 2 ^ j"
proof -
  have "(2::nat) ^ j < 2 ^ 64"
    using assms by (intro power_strict_increasing) simp_all
  then have "unat (word_of_nat (2 ^ j) :: size_type) = 2 ^ j"
    by (rule unat_of_nat_size)
  then show ?thesis by simp
qed


lemma unat_and_le: "unat ((x :: size_type) AND y) \<le> unat y"
  using word_and_le1 word_less_eq_iff_unsigned by blast


section \<open>The next power of two\<close>

text \<open>
  After the loop of \<^verbatim>\<open>next_pow2\<close> every bit below a set bit is set: the step with
  shift \<open>j\<close> doubles the reach of each set bit.
\<close>

lemma bit_smear_step:
  fixes z :: size_type
  assumes "\<And>n. bit z n \<longleftrightarrow> (\<exists>m. n \<le> m \<and> m < n + j \<and> bit y m)" and "j2 = j + j"
  shows "bit (z OR drop_bit j z) n \<longleftrightarrow> (\<exists>m. n \<le> m \<and> m < n + j2 \<and> bit y m)"
proof -
  have "bit (z OR drop_bit j z) n \<longleftrightarrow> bit z n \<or> bit z (j + n)"
    by (simp add: bit_or_iff bit_drop_bit_eq)
  also have "\<dots> \<longleftrightarrow> (\<exists>m. n \<le> m \<and> m < n + j \<and> bit y m) \<or> (\<exists>m. j + n \<le> m \<and> m < j + n + j \<and> bit y m)"
    by (simp only: assms)
  also have "\<dots> \<longleftrightarrow> (\<exists>m. n \<le> m \<and> m < n + j2 \<and> bit y m)"
  proof -
    have "(n \<le> m \<and> m < n + j2) \<longleftrightarrow> (n \<le> m \<and> m < n + j) \<or> (j + n \<le> m \<and> m < j + n + j)" for m
      using assms(2) by linarith
    then show ?thesis by blast
  qed
  finally show ?thesis .
qed

lemma bit_smear_all:
  fixes y :: size_type
  shows "bit (smear [1, 2, 4, 8, 16, 32] y) n \<longleftrightarrow> (\<exists>m. n \<le> m \<and> bit y m)"
proof -
  define z1 where "z1 = y OR drop_bit 1 y"
  define z2 where "z2 = z1 OR drop_bit 2 z1"
  define z3 where "z3 = z2 OR drop_bit 4 z2"
  define z4 where "z4 = z3 OR drop_bit 8 z3"
  define z5 where "z5 = z4 OR drop_bit 16 z4"
  define z6 where "z6 = z5 OR drop_bit 32 z5"
  have w0: "bit y n \<longleftrightarrow> (\<exists>m. n \<le> m \<and> m < n + 1 \<and> bit y m)" for n
    by (metis Suc_eq_plus1 le_refl less_Suc_eq_le order_antisym)
  have w1: "bit z1 n \<longleftrightarrow> (\<exists>m. n \<le> m \<and> m < n + 2 \<and> bit y m)" for n
    unfolding z1_def by (rule bit_smear_step [OF w0]) simp
  have w2: "bit z2 n \<longleftrightarrow> (\<exists>m. n \<le> m \<and> m < n + 4 \<and> bit y m)" for n
    unfolding z2_def by (rule bit_smear_step [OF w1]) simp
  have w3: "bit z3 n \<longleftrightarrow> (\<exists>m. n \<le> m \<and> m < n + 8 \<and> bit y m)" for n
    unfolding z3_def by (rule bit_smear_step [OF w2]) simp
  have w4: "bit z4 n \<longleftrightarrow> (\<exists>m. n \<le> m \<and> m < n + 16 \<and> bit y m)" for n
    unfolding z4_def by (rule bit_smear_step [OF w3]) simp
  have w5: "bit z5 n \<longleftrightarrow> (\<exists>m. n \<le> m \<and> m < n + 32 \<and> bit y m)" for n
    unfolding z5_def by (rule bit_smear_step [OF w4]) simp
  have w6: "bit z6 n \<longleftrightarrow> (\<exists>m. n \<le> m \<and> m < n + 64 \<and> bit y m)" for n
    unfolding z6_def by (rule bit_smear_step [OF w5]) simp
  have "smear [1, 2, 4, 8, 16, 32] y = z6"
    by (simp only: smear.simps z1_def z2_def z3_def z4_def z5_def z6_def)
  then have "bit (smear [1, 2, 4, 8, 16, 32] y) n \<longleftrightarrow> (\<exists>m. n \<le> m \<and> m < n + 64 \<and> bit y m)"
    using w6 by simp
  also have "\<dots> \<longleftrightarrow> (\<exists>m. n \<le> m \<and> bit y m)"
  proof -
    have "bit y m \<Longrightarrow> m < n + 64" for m
      using bit_imp_le_length [of y m] by simp
    then show ?thesis by blast
  qed
  finally show ?thesis .
qed

lemma smear_mask:
  fixes y :: size_type
  assumes "bit y p" and "\<And>m. bit y m \<Longrightarrow> m \<le> p"
  shows "smear [1, 2, 4, 8, 16, 32] y = mask (Suc p)"
proof (rule bit_eqI)
  fix n
  assume "possible_bit TYPE(size_type) n"
  have "bit (smear [1, 2, 4, 8, 16, 32] y) n \<longleftrightarrow> n \<le> p"
    unfolding bit_smear_all using assms by (meson order_trans)
  moreover have "bit (mask (Suc p) :: size_type) n \<longleftrightarrow> n \<le> p"
    using \<open>possible_bit TYPE(size_type) n\<close> by (simp add: bit_mask_iff less_Suc_eq_le)
  ultimately show "bit (smear [1, 2, 4, 8, 16, 32] y) n \<longleftrightarrow> bit (mask (Suc p) :: size_type) n"
    by simp
qed


lemma highest_bit_nat:
  fixes u :: nat
  assumes "2 ^ p \<le> u" and "u < 2 ^ Suc p"
  shows "bit u p" and "bit u m \<Longrightarrow> m \<le> p"
proof -
  have "u div 2 ^ p = 1"
    using assms by (simp add: div_nat_eqI)
  then show "bit u p"
    by (simp add: bit_iff_odd)
  show "m \<le> p" if "bit u m"
  proof (rule ccontr)
    assume "\<not> m \<le> p"
    then have "Suc p \<le> m" by simp
    then have "(2::nat) ^ Suc p \<le> 2 ^ m"
      by (rule power_increasing) simp
    then have "u div 2 ^ m = 0"
      using assms(2) by simp
    with that show False by (simp add: bit_iff_odd)
  qed
qed

lemma next_pow2_smear:
  fixes x :: size_type
  assumes "2 \<le> unat x" and "2 ^ p \<le> unat x - 1" and "unat x - 1 < 2 ^ Suc p"
  shows "next_pow2 x = 2 ^ Suc p"
proof -
  have x1: "unat (x - 1) = unat x - 1"
    using assms(1) by (intro unat_minus_one) auto
  have "bit (unat (x - 1)) p" and "\<And>m. bit (unat (x - 1)) m \<Longrightarrow> m \<le> p"
    using highest_bit_nat [of p "unat (x - 1)"] assms(2,3) x1 by auto
  then have "bit (x - 1) p" and "\<And>m. bit (x - 1) m \<Longrightarrow> m \<le> p"
    by (simp_all add: bit_unsigned_iff)
  then have "smear [1, 2, 4, 8, 16, 32] (x - 1) = mask (Suc p)"
    by (rule smear_mask)
  moreover have "\<not> x < 2"
    using assms(1) by (simp add: word_less_nat_alt)
  ultimately show ?thesis
    by (simp add: next_pow2_def mask_eq_decr_exp)
qed

lemma next_pow2_spec:
  fixes x :: size_type
  assumes "unat x \<le> 2 ^ 63"
  shows "\<exists>m. 1 \<le> m \<and> m \<le> 63 \<and> next_pow2 x = 2 ^ m \<and> unat x \<le> 2 ^ m \<and>
             (m = 1 \<or> 2 ^ m < 2 * unat x)"
proof (cases "unat x < 2")
  case True
  then have "x < 2" by (simp add: word_less_nat_alt)
  then have "next_pow2 x = 2 ^ 1" by (simp add: next_pow2_def)
  with True show ?thesis by (intro exI [of _ 1]) simp
next
  case False
  then have x2: "2 \<le> unat x" by simp
  then have "1 \<le> unat x - 1" by simp
  from ex_power_ivl1 [OF order_refl this]
  obtain p where p: "2 ^ p \<le> unat x - 1" "unat x - 1 < 2 ^ (p + 1)"
    by blast
  have "(2::nat) ^ p < 2 ^ 63"
    using p(1) assms x2 by linarith
  then have p63: "p < 63"
    by (rule power_less_imp_less_exp [rotated]) simp
  have "next_pow2 x = 2 ^ Suc p"
    using next_pow2_smear [OF x2 p(1)] p(2) by simp
  moreover have "unat x \<le> 2 ^ Suc p" using p(2) by simp
  moreover have "2 ^ Suc p < 2 * unat x" using p(1) x2 by simp
  ultimately show ?thesis
    using p63 by (intro exI [of _ "Suc p"]) simp
qed

lemma next_pow2_overflow:
  fixes x :: size_type
  assumes "2 ^ 63 < unat x"
  shows "next_pow2 x = 0"
proof -
  have "unat x < 2 ^ 64" using unsigned_less [of x] by simp
  then have "next_pow2 x = 2 ^ Suc 63"
    using assms by (intro next_pow2_smear) auto
  then show ?thesis by simp
qed

section \<open>Storage length\<close>

lemma insert_probe_frame:
  "insert_probe n s k v i fd = Some (r, s') \<Longrightarrow>
   length (m_buckets s') = length (m_buckets s) \<and>
   m_max_load_factor s' = m_max_load_factor s \<and> m_hasher s' = m_hasher s"
  by (induction n s k v i fd rule: insert_probe.induct) (auto simp: Let_def split: if_splits)

lemma throws_family:
  "insert_or_assign_impl n s k v = Some (Inl (e, s')) \<Longrightarrow> e = length_error \<and> m_buckets s' = []"
  "rehash_if_needed n s = Some (Inl (e, s')) \<Longrightarrow> e = length_error \<and> m_buckets s' = []"
  "rehash n s m = Some (Inl (e, s')) \<Longrightarrow> e = length_error \<and> m_buckets s' = []"
  "rehash_loop n s old = Some (Inl (e, s')) \<Longrightarrow> e = length_error \<and> m_buckets s' = []"
  by (induction n s k v and n s and n s m and n s old
      rule: insert_or_assign_impl_rehash_if_needed_rehash_rehash_loop.induct)
     (auto simp: Let_def split: if_splits option.splits sum.splits prod.splits)

text \<open>The bucket count that \<^verbatim>\<open>rehash\<close> allocates.\<close>

lemma rehash_count:
  fixes m :: size_type
  defines "c \<equiv> (if next_pow2 m < 2 then 2 else next_pow2 m)"
  assumes "\<not> max_size < c"
  shows "\<exists>j. 1 \<le> j \<and> j \<le> 62 \<and> unat c = 2 ^ j \<and> (unat m \<le> 2 ^ 63 \<longrightarrow> unat m \<le> 2 ^ j \<and> (j = 1 \<or> 2 ^ j < 2 * unat m))"
proof (cases "unat m \<le> 2 ^ 63")
  case True
  from next_pow2_spec [OF True] obtain j where j: "1 \<le> j" "j \<le> 63" "next_pow2 m = 2 ^ j"
    "unat m \<le> 2 ^ j" "j = 1 \<or> 2 ^ j < 2 * unat m" by blast
  have u: "unat (next_pow2 m) = 2 ^ j"
    using j(2,3) by (simp add: unat_pow2)
  have "2 \<le> unat (next_pow2 m)"
    using power_increasing [of 1 j "2::nat"] u j(1) by simp
  then have c: "c = next_pow2 m"
    unfolding c_def by (simp add: word_less_nat_alt)
  have "unat c \<le> 2 ^ 63 - 1"
    using assms(2) by (simp add: max_size_def word_less_nat_alt not_less)
  then have "(2::nat) ^ j < 2 ^ 63" using c u by simp
  then have "j < 63"
    by (rule power_less_imp_less_exp [rotated]) simp
  then show ?thesis
    using j c u True by (intro exI [of _ j]) simp
next
  case False
  then have "next_pow2 m = 0" by (intro next_pow2_overflow) simp
  then have "c = 2" by (simp add: c_def)
  then show ?thesis using False by (intro exI [of _ 1]) simp
qed

lemma pow2_len_length_cong:
  "length (m_buckets a) = length (m_buckets b) \<Longrightarrow> pow2_len a = pow2_len b"
  by (simp add: pow2_len_def)

lemma pow2_len_bsize:
  assumes "pow2_len s"
  shows "unat (bsize s) = length (m_buckets s)" and "unat (bsize s * 2) = 2 * length (m_buckets s)"
    and "unat (bsize s * 2) \<le> 2 ^ 63"
proof -
  from assms obtain j where j: "1 \<le> j" "j \<le> 62" "length (m_buckets s) = 2 ^ j"
    by (auto simp: pow2_len_def)
  have b: "bsize s = 2 ^ j" by (simp add: bsize_def j(3))
  show "unat (bsize s) = length (m_buckets s)"
    using j(2) by (simp add: b j(3) unat_pow2)
  have "bsize s * 2 = 2 ^ Suc j" by (simp add: b)
  then have u: "unat (bsize s * 2) = 2 ^ Suc j"
    using j(2) by (simp only: unat_pow2)
  then show "unat (bsize s * 2) = 2 * length (m_buckets s)"
    by (simp add: j(3))
  have "(2::nat) ^ Suc j \<le> 2 ^ 63"
    using j(2) by (intro power_increasing) simp_all
  then show "unat (bsize s * 2) \<le> 2 ^ 63" using u by simp
qed

lemma len_family:
  "insert_or_assign_impl n s k v = Some (Inr (r, s')) \<Longrightarrow> storage_ok s \<Longrightarrow>
     pow2_len s' \<and> length (m_buckets s) \<le> length (m_buckets s')"
  "rehash_if_needed n s = Some (Inr (u, s')) \<Longrightarrow> storage_ok s \<Longrightarrow>
     pow2_len s' \<and> length (m_buckets s) \<le> length (m_buckets s')"
  "rehash n s m = Some (Inr (u, s')) \<Longrightarrow>
     pow2_len s' \<and> (unat m \<le> 2 ^ 63 \<longrightarrow> unat m \<le> length (m_buckets s'))"
  "rehash_loop n s old = Some (Inr (u, s')) \<Longrightarrow> pow2_len s \<Longrightarrow>
     pow2_len s' \<and> length (m_buckets s) \<le> length (m_buckets s')"
proof (induction n s k v and n s and n s m and n s old arbitrary: r s' and u s' and u s' and u s'
    rule: insert_or_assign_impl_rehash_if_needed_rehash_rehash_loop.induct)
  case (2 n s k v)
  from "2.prems"(1) obtain s1 where
    a: "rehash_if_needed n s = Some (Inr ((), s1))" and
    b: "insert_probe n s1 k v (bucket_index s1 k) (- 1) = Some (r, s')"
    by (auto split: option.splits sum.splits)
  from "2.IH" [OF a "2.prems"(2)] insert_probe_frame [OF b] show ?case
    by (simp add: pow2_len_length_cong [of s' s1])
next
  case (4 n s)
  show ?case
  proof (cases "m_buckets s = [] \<or> flt_gt (current_load s) (m_max_load_factor s)")
    case True
    with "4.prems"(1) have r: "rehash n s (if m_buckets s = [] then 16 else bsize s * 2) = Some (Inr (u, s'))"
      by simp
    from "4.IH" [OF True r] have p: "pow2_len s'"
      and l: "unat (if m_buckets s = [] then 16 else bsize s * 2) \<le> 2 ^ 63 \<longrightarrow>
        unat (if m_buckets s = [] then 16 else bsize s * 2) \<le> length (m_buckets s')"
      by simp_all
    have "length (m_buckets s) \<le> length (m_buckets s')"
    proof (cases "m_buckets s = []")
      case True then show ?thesis by simp
    next
      case False
      with "4.prems"(2) have "pow2_len s" by (simp add: storage_ok_def)
      from pow2_len_bsize [OF this] l False show ?thesis by simp
    qed
    with p show ?thesis by simp
  next
    case False
    with "4.prems" show ?thesis by (auto simp: storage_ok_def)
  qed
next
  case (6 n s m)
  define c where "c = (if next_pow2 m < 2 then 2 else next_pow2 m)"
  define s0 where "s0 = s\<lparr>m_buckets := replicate (unat c) Bucket0, m_size := 0, m_tombstones := 0\<rparr>"
  from "6.prems" have ok: "\<not> max_size < c" and l: "rehash_loop n s0 (m_buckets s) = Some (Inr (u, s'))"
    by (auto simp: Let_def c_def s0_def split: if_splits)
  from rehash_count [of m] ok obtain j where j: "1 \<le> j" "j \<le> 62" "unat c = 2 ^ j"
    "unat m \<le> 2 ^ 63 \<longrightarrow> unat m \<le> 2 ^ j"
    unfolding c_def by blast
  have p0: "pow2_len s0" using j by (auto simp: pow2_len_def s0_def)
  from "6.IH" [OF refl c_def refl ok l [unfolded s0_def] p0 [unfolded s0_def]] j
  show ?case by (auto simp: )
next
  case (9 n s b old)
  show ?case
  proof (cases "state b = Filled")
    case True
    with "9.prems"(1) obtain r1 s1 where
      a: "insert_or_assign_impl n s (key b) (val b) = Some (Inr (r1, s1))" and
      b: "rehash_loop n s1 old = Some (Inr (u, s'))"
      by (auto split: option.splits sum.splits)
    from "9.IH"(1) [OF True a] "9.prems"(2) have p1: "pow2_len s1" "length (m_buckets s) \<le> length (m_buckets s1)"
      by (simp_all add: storage_ok_def)
    from "9.IH"(2) [OF True a refl refl b p1(1)] p1(2) show ?thesis by simp
  next
    case False
    with "9.prems" "9.IH"(3) show ?thesis by simp
  qed
qed simp_all

section \<open>Probe sequences\<close>

lemma pow2_lenD:
  assumes "pow2_len s"
  obtains j where "1 \<le> j" "j \<le> 62" "length (m_buckets s) = 2 ^ j" "cap_mask s = 2 ^ j - 1"
proof -
  from assms obtain j where j: "1 \<le> j" "j \<le> 62" "length (m_buckets s) = 2 ^ j"
    by (auto simp: pow2_len_def)
  then have "cap_mask s = 2 ^ j - 1" by (simp add: cap_mask_def bsize_def)
  with j that show thesis by blast
qed



lemma pow2_len_bounds:
  assumes "pow2_len s"
  shows "2 \<le> length (m_buckets s)" and "length (m_buckets s) \<le> 2 ^ 62"
proof -
  from assms obtain j where j: "1 \<le> j" "j \<le> 62" "length (m_buckets s) = 2 ^ j"
    by (rule pow2_lenD)
  show "2 \<le> length (m_buckets s)"
    using power_increasing [of 1 j "2::nat"] j by simp
  show "length (m_buckets s) \<le> 2 ^ 62"
    using power_increasing [of j 62 "2::nat"] j by simp
qed






section \<open>Evaluating the examples\<close>

lemmas ex_defs = table_of_def slot_def two_slots_def one_of_two_def two_of_two_def
  two_of_two_erased_def four_slots_def new_map_def flat_unordered_map_default_def

lemma floor_rat_numeral: "\<lfloor>(numeral a :: rat) / numeral b\<rfloor> = numeral a div numeral b"
  using floor_divide_of_int_eq [of "numeral a" "numeral b", where ?'a = rat] by simp

lemma replicate_2: "replicate 2 x = [x, x]"
  by (simp add: numeral_2_eq_2)

lemmas model_defs = reserve_def flt_0_7_def flt_of_size_def bsize_def next_pow2_def max_size_def
  Bucket0_def Let_def default_int_def default_list_def floor_rat_numeral
  current_load_def bucket_index_def cap_mask_def hash_int_def flt_gt_def
  insert_or_assign_def find_op_def erase_def

lemma reserve_new_map: "reserve (Suc (Suc 0)) new_map 1 = Some (Inr ((), two_slots))"
  by (simp add: ex_defs model_defs replicate_2)

lemma insert_two_slots: "insert_or_assign (Suc (Suc 0)) two_slots 0 ''a'' = Some (Inr ((True, 0), one_of_two))"
  by (simp add: ex_defs model_defs)

lemma insert_one_of_two: "insert_or_assign (Suc (Suc 0)) one_of_two 1 ''b'' = Some (Inr ((True, 1), two_of_two))"
  by (simp add: ex_defs model_defs)

lemma erase_two_of_two: "erase (Suc 0) two_of_two 0 = Some (Inr (True, two_of_two_erased))"
  by (simp add: ex_defs model_defs)

lemma after_Inr: "after (Some (Inr (r, s))) = Some (Inr s)"
  by (simp add: after_def)

lemma two_slots_reachable: "reachable two_slots"
proof -
  have "reachable new_map" unfolding new_map_def by (rule reachable.default)
  moreover have "perform (Suc (Suc 0)) (Reserve 1) new_map = Some (Inr two_slots)"
    by (simp add: reserve_new_map after_Inr)
  ultimately show ?thesis by (rule reachable.returned)
qed

lemma two_of_two_reachable: "reachable two_of_two"
proof -
  have "perform (Suc (Suc 0)) (Insert_or_assign 0 ''a'') two_slots = Some (Inr one_of_two)"
    by (simp add: insert_two_slots after_Inr)
  with two_slots_reachable have "reachable one_of_two" by (rule reachable.returned)
  moreover have "perform (Suc (Suc 0)) (Insert_or_assign 1 ''b'') one_of_two = Some (Inr two_of_two)"
    by (simp add: insert_one_of_two after_Inr)
  ultimately show ?thesis by (rule reachable.returned)
qed

lemma one_of_two_reachable: "reachable one_of_two"
proof -
  have "perform (Suc (Suc 0)) (Insert_or_assign 0 ''a'') two_slots = Some (Inr one_of_two)"
    by (simp add: insert_two_slots after_Inr)
  with two_slots_reachable show ?thesis by (rule reachable.returned)
qed




subsection \<open>A table of four slots\<close>

lemmas ex4_defs = table_with_def four_full_def four_two_erased_def four_compacted_def
  max_load_factor_set_def flt_le_def flt_ge_def flt_0_1_def flt_0_95_def

lemma replicate_4: "replicate 4 x = [x, x, x, x]"
  by (simp add: numeral_eq_Suc)

lemma reserve_four:
  "reserve (Suc (Suc 0)) new_map 2 =
   Some (Inr ((), table_of [slot 0 [] Empty, slot 0 [] Empty, slot 0 [] Empty, slot 0 [] Empty] 0 0))"
  by (simp add: ex_defs model_defs replicate_4)

lemma set_factor_four:
  "max_load_factor_set (Suc 0)
     (table_of [slot 0 [] Empty, slot 0 [] Empty, slot 0 [] Empty, slot 0 [] Empty] 0 0) (Finite (7 / 8)) =
   Some (Inr ((), table_with (7 / 8) [slot 0 [] Empty, slot 0 [] Empty, slot 0 [] Empty, slot 0 [] Empty] 0 0))"
  by (simp add: ex_defs ex4_defs model_defs)

lemma insert_four_0:
  "insert_or_assign (Suc (Suc 0))
     (table_with (7 / 8) [slot 0 [] Empty, slot 0 [] Empty, slot 0 [] Empty, slot 0 [] Empty] 0 0) 0 ''a'' =
   Some (Inr ((True, 0),
     table_with (7 / 8) [slot 0 ''a'' Filled, slot 0 [] Empty, slot 0 [] Empty, slot 0 [] Empty] 1 0))"
  by (simp add: ex_defs ex4_defs model_defs)

lemma insert_four_1:
  "insert_or_assign (Suc (Suc 0))
     (table_with (7 / 8) [slot 0 ''a'' Filled, slot 0 [] Empty, slot 0 [] Empty, slot 0 [] Empty] 1 0) 1 ''b'' =
   Some (Inr ((True, 1),
     table_with (7 / 8) [slot 0 ''a'' Filled, slot 1 ''b'' Filled, slot 0 [] Empty, slot 0 [] Empty] 2 0))"
  by (simp add: ex_defs ex4_defs model_defs)

lemma insert_four_2:
  "insert_or_assign (Suc (Suc 0))
     (table_with (7 / 8) [slot 0 ''a'' Filled, slot 1 ''b'' Filled, slot 0 [] Empty, slot 0 [] Empty] 2 0) 2 ''c'' =
   Some (Inr ((True, 2),
     table_with (7 / 8) [slot 0 ''a'' Filled, slot 1 ''b'' Filled, slot 2 ''c'' Filled, slot 0 [] Empty] 3 0))"
  by (simp add: ex_defs ex4_defs model_defs)

lemma insert_four_3:
  "insert_or_assign (Suc (Suc 0))
     (table_with (7 / 8) [slot 0 ''a'' Filled, slot 1 ''b'' Filled, slot 2 ''c'' Filled, slot 0 [] Empty] 3 0) 3 ''d'' =
   Some (Inr ((True, 3), four_full))"
  by (simp add: ex_defs ex4_defs model_defs)

lemma erase_four_0:
  "erase (Suc 0) four_full 0 =
   Some (Inr (True,
     table_with (7 / 8) [slot 0 ''a'' Deleted, slot 1 ''b'' Filled, slot 2 ''c'' Filled, slot 3 ''d'' Filled] 3 1))"
  by (simp add: ex_defs ex4_defs model_defs)

lemma erase_four_1:
  "erase (Suc 0)
     (table_with (7 / 8) [slot 0 ''a'' Deleted, slot 1 ''b'' Filled, slot 2 ''c'' Filled, slot 3 ''d'' Filled] 3 1) 1 =
   Some (Inr (True, four_two_erased))"
  by (simp add: ex_defs ex4_defs model_defs)

lemma erase_four_2:
  "erase (Suc (Suc (Suc (Suc (Suc (Suc (Suc (Suc 0)))))))) four_two_erased 2 = Some (Inr (True, four_compacted))"
  by (simp add: ex_defs ex4_defs model_defs replicate_4)

lemma four_full_reachable: "reachable four_full"
proof -
  have "reachable new_map" unfolding new_map_def by (rule reachable.default)
  moreover have "perform (Suc (Suc 0)) (Reserve 2) new_map =
      Some (Inr (table_of [slot 0 [] Empty, slot 0 [] Empty, slot 0 [] Empty, slot 0 [] Empty] 0 0))"
    by (simp add: reserve_four after_Inr)
  ultimately have "reachable (table_of [slot 0 [] Empty, slot 0 [] Empty, slot 0 [] Empty, slot 0 [] Empty] 0 0)"
    by (rule reachable.returned)
  moreover have "perform (Suc 0) (Set_max_load_factor (Finite (7 / 8)))
      (table_of [slot 0 [] Empty, slot 0 [] Empty, slot 0 [] Empty, slot 0 [] Empty] 0 0) =
      Some (Inr (table_with (7 / 8) [slot 0 [] Empty, slot 0 [] Empty, slot 0 [] Empty, slot 0 [] Empty] 0 0))"
    by (simp add: set_factor_four after_Inr)
  ultimately have "reachable (table_with (7 / 8) [slot 0 [] Empty, slot 0 [] Empty, slot 0 [] Empty, slot 0 [] Empty] 0 0)"
    by (rule reachable.returned)
  moreover have "perform (Suc (Suc 0)) (Insert_or_assign 0 ''a'')
      (table_with (7 / 8) [slot 0 [] Empty, slot 0 [] Empty, slot 0 [] Empty, slot 0 [] Empty] 0 0) =
      Some (Inr (table_with (7 / 8) [slot 0 ''a'' Filled, slot 0 [] Empty, slot 0 [] Empty, slot 0 [] Empty] 1 0))"
    by (simp add: insert_four_0 after_Inr)
  ultimately have "reachable (table_with (7 / 8) [slot 0 ''a'' Filled, slot 0 [] Empty, slot 0 [] Empty, slot 0 [] Empty] 1 0)"
    by (rule reachable.returned)
  moreover have "perform (Suc (Suc 0)) (Insert_or_assign 1 ''b'')
      (table_with (7 / 8) [slot 0 ''a'' Filled, slot 0 [] Empty, slot 0 [] Empty, slot 0 [] Empty] 1 0) =
      Some (Inr (table_with (7 / 8) [slot 0 ''a'' Filled, slot 1 ''b'' Filled, slot 0 [] Empty, slot 0 [] Empty] 2 0))"
    by (simp add: insert_four_1 after_Inr)
  ultimately have "reachable (table_with (7 / 8) [slot 0 ''a'' Filled, slot 1 ''b'' Filled, slot 0 [] Empty, slot 0 [] Empty] 2 0)"
    by (rule reachable.returned)
  moreover have "perform (Suc (Suc 0)) (Insert_or_assign 2 ''c'')
      (table_with (7 / 8) [slot 0 ''a'' Filled, slot 1 ''b'' Filled, slot 0 [] Empty, slot 0 [] Empty] 2 0) =
      Some (Inr (table_with (7 / 8) [slot 0 ''a'' Filled, slot 1 ''b'' Filled, slot 2 ''c'' Filled, slot 0 [] Empty] 3 0))"
    by (simp add: insert_four_2 after_Inr)
  ultimately have "reachable (table_with (7 / 8) [slot 0 ''a'' Filled, slot 1 ''b'' Filled, slot 2 ''c'' Filled, slot 0 [] Empty] 3 0)"
    by (rule reachable.returned)
  moreover have "perform (Suc (Suc 0)) (Insert_or_assign 3 ''d'')
      (table_with (7 / 8) [slot 0 ''a'' Filled, slot 1 ''b'' Filled, slot 2 ''c'' Filled, slot 0 [] Empty] 3 0) =
      Some (Inr four_full)"
    by (simp add: insert_four_3 after_Inr)
  ultimately show ?thesis by (rule reachable.returned)
qed

lemma four_two_erased_reachable: "reachable four_two_erased"
proof -
  have "perform (Suc 0) (Erase 0) four_full =
      Some (Inr (table_with (7 / 8) [slot 0 ''a'' Deleted, slot 1 ''b'' Filled, slot 2 ''c'' Filled, slot 3 ''d'' Filled] 3 1))"
    by (simp add: erase_four_0 after_Inr)
  with four_full_reachable
  have "reachable (table_with (7 / 8) [slot 0 ''a'' Deleted, slot 1 ''b'' Filled, slot 2 ''c'' Filled, slot 3 ''d'' Filled] 3 1)"
    by (rule reachable.returned)
  moreover have "perform (Suc 0) (Erase 1)
      (table_with (7 / 8) [slot 0 ''a'' Deleted, slot 1 ''b'' Filled, slot 2 ''c'' Filled, slot 3 ''d'' Filled] 3 1) =
      Some (Inr four_two_erased)"
    by (simp add: erase_four_1 after_Inr)
  ultimately show ?thesis by (rule reachable.returned)
qed


section \<open>The loop of find\<close>

lemma find_probe_steps:
  assumes "\<forall>j<d. skips s k (unat (probe_at s idx j))"
  shows "find_probe (d + n) s k idx = find_probe n s k (probe_at s idx d)"
  using assms
proof (induction d arbitrary: idx)
  case 0
  then show ?case by simp
next
  case (Suc d)
  have here: "skips s k (unat idx)"
    using Suc.prems [rule_format, of 0] by simp
  have rest: "\<forall>j<d. skips s k (unat (probe_at s ((idx + 1) AND cap_mask s) j))"
  proof (intro allI impI)
    fix j assume "j < d"
    with Suc.prems [rule_format, of "Suc j"]
    show "skips s k (unat (probe_at s ((idx + 1) AND cap_mask s) j))" by simp
  qed
  from here have "find_probe (Suc d + n) s k idx = find_probe (d + n) s k ((idx + 1) AND cap_mask s)"
    by (auto simp: skips_def Let_def)
  with Suc.IH [OF rest] show ?case by simp
qed

lemma find_probe_short:
  assumes "\<forall>j<d. skips s k (unat (probe_at s idx j))" and "n \<le> d"
  shows "find_probe n s k idx = None"
proof -
  from assms have "\<forall>j<n. skips s k (unat (probe_at s idx j))" by simp
  from find_probe_steps [OF this, of 0] show ?thesis by simp
qed

section \<open>The storage of a reachable table\<close>

lemma after_eq_Inr: "after r = Some (Inr s') \<longleftrightarrow> (\<exists>x. r = Some (Inr (x, s')))"
  by (cases r) (auto simp: after_def map_sum_def split: sum.splits)

lemma after_eq_Inl: "after r = Some (Inl (e, s')) \<longleftrightarrow> r = Some (Inl (e, s'))"
  by (cases r) (auto simp: after_def map_sum_def split: sum.splits)

lemma erase_probe_storage:
  "erase_probe n s k idx = Some (Inr (r, s')) \<Longrightarrow> pow2_len s \<Longrightarrow> pow2_len s'"
proof (induction n s k idx rule: erase_probe.induct)
  case (1 s k idx)
  then show ?case by simp
next
  case (2 n s k idx)
  let ?b = "m_buckets s ! unat idx"
  consider (E) "state ?b = Empty" | (F) "state ?b = Filled \<and> key ?b = k"
    | (O) "state ?b \<noteq> Empty" "\<not> (state ?b = Filled \<and> key ?b = k)"
    by blast
  then show ?case
  proof cases
    case E
    with "2.prems" show ?thesis by (simp add: Let_def)
  next
    case F
    define s1 where "s1 = s\<lparr>m_buckets := (m_buckets s)[unat idx := ?b\<lparr>state := Deleted\<rparr>],
                    m_size := m_size s - 1, m_tombstones := m_tombstones s + 1\<rparr>"
    have p1: "pow2_len s1" using "2.prems"(2) by (simp add: s1_def pow2_len_def)
    show ?thesis
    proof (cases "bsize s1 div 2 < m_tombstones s1")
      case True
      with F "2.prems"(1) obtain u where "rehash n s1 (bsize s1) = Some (Inr (u, s'))"
        by (auto simp: Let_def s1_def split: option.splits sum.splits)
      from len_family(3) [OF this] show ?thesis by simp
    next
      case False
      with F "2.prems"(1) have "s' = s1" by (auto simp: Let_def s1_def)
      with p1 show ?thesis by simp
    qed
  next
    case O
    with "2.prems" "2.IH" show ?thesis by (auto simp: Let_def)
  qed
qed

lemma erase_probe_throws:
  "erase_probe n s k idx = Some (Inl (e, s')) \<Longrightarrow> e = length_error \<and> m_buckets s' = []"
  by (induction n s k idx rule: erase_probe.induct)
     (auto simp: Let_def split: if_splits option.splits sum.splits dest: throws_family(3))

lemma perform_returned_storage:
  assumes "perform n c s = Some (Inr s')" and "storage_ok s"
  shows "storage_ok s'"
proof (cases c)
  case (Insert_or_assign k v)
  with assms(1) obtain r where "insert_or_assign_impl n s k v = Some (Inr (r, s'))"
    by (auto simp: after_eq_Inr after_eq_Inl insert_or_assign_def split: option.splits sum.splits prod.splits)
  from len_family(1) [OF this assms(2)] show ?thesis by (simp add: storage_ok_def)
next
  case (Find k)
  with assms show ?thesis by auto
next
  case (Subscript k)
  show ?thesis
  proof (cases "find_op n s k")
    case None
    with Subscript assms(1) show ?thesis by (simp add: after_eq_Inr after_eq_Inl subscript_def)
  next
    case (Some a)
    show ?thesis
    proof (cases a)
      case None
      with Some Subscript assms(1) obtain r where
        "insert_or_assign_impl n s k default = Some (Inr (r, s'))"
        by (auto simp: after_eq_Inr after_eq_Inl subscript_def insert_or_assign_def
            split: option.splits sum.splits prod.splits)
      from len_family(1) [OF this assms(2)] show ?thesis by (simp add: storage_ok_def)
    next
      case (Some p)
      with \<open>find_op n s k = Some a\<close> Subscript assms show ?thesis
        by (simp add: after_eq_Inr after_eq_Inl subscript_def)
    qed
  qed
next
  case (Erase k)
  show ?thesis
  proof (cases "m_buckets s = []")
    case True
    with Erase assms show ?thesis by (simp add: after_eq_Inr after_eq_Inl erase_def)
  next
    case False
    with Erase assms(1) obtain r where "erase_probe n s k (bucket_index s k) = Some (Inr (r, s'))"
      by (auto simp: after_eq_Inr after_eq_Inl erase_def split: option.splits sum.splits)
    from erase_probe_storage [OF this] False assms(2) show ?thesis by (simp add: storage_ok_def)
  qed
next
  case Clear
  with assms show ?thesis by (auto simp: storage_ok_def pow2_len_def clear_def)
next
  case (Reserve m)
  show ?thesis
  proof (cases "size_of_flt (flt_div (flt_of_size m) (m_max_load_factor s))")
    case None
    with Reserve assms(1) show ?thesis by (simp add: after_eq_Inr after_eq_Inl reserve_def)
  next
    case (Some q)
    show ?thesis
    proof (cases "bsize s < q + 1")
      case True
      with Some Reserve assms(1) obtain u where "rehash n s (q + 1) = Some (Inr (u, s'))"
        by (auto simp: after_eq_Inr after_eq_Inl reserve_def Let_def split: option.splits sum.splits)
      from len_family(3) [OF this] show ?thesis by (simp add: storage_ok_def)
    next
      case False
      with Some Reserve assms show ?thesis by (simp add: after_eq_Inr after_eq_Inl reserve_def Let_def)
    qed
  qed
next
  case (Rehash m)
  with assms(1) obtain u where "rehash n s m = Some (Inr (u, s'))"
    by (auto simp: after_eq_Inr after_eq_Inl split: option.splits sum.splits)
  from len_family(3) [OF this] show ?thesis by (simp add: storage_ok_def)
next
  case (Set_max_load_factor f)
  with assms(1) obtain u where "rehash_if_needed n (s\<lparr>m_max_load_factor := f\<rparr>) = Some (Inr (u, s'))"
    by (auto simp: after_eq_Inr after_eq_Inl max_load_factor_set_def split: option.splits sum.splits if_splits)
  moreover have "storage_ok (s\<lparr>m_max_load_factor := f\<rparr>)"
    using assms(2) by (simp add: storage_ok_def pow2_len_def)
  ultimately have "pow2_len s'" using len_family(2) by blast
  then show ?thesis by (simp add: storage_ok_def)
qed (use assms in auto)

lemma perform_thrown:
  assumes "perform n c s = Some (Inl (e, s'))"
  shows "(e = length_error \<and> m_buckets s' = []) \<or> (e \<noteq> length_error \<and> s' = s)"
proof (cases c)
  case (Insert_or_assign k v)
  with assms have "insert_or_assign_impl n s k v = Some (Inl (e, s'))"
    by (auto simp: after_eq_Inr after_eq_Inl insert_or_assign_def split: option.splits sum.splits prod.splits)
  from throws_family(1) [OF this] show ?thesis by simp
next
  case (Find k)
  with assms show ?thesis by auto
next
  case (Subscript k)
  with assms have "insert_or_assign_impl n s k default = Some (Inl (e, s'))"
    by (auto simp: after_eq_Inr after_eq_Inl insert_or_assign_def subscript_def split: option.splits sum.splits prod.splits)
  from throws_family(1) [OF this] show ?thesis by simp
next
  case (Erase k)
  with assms have "erase_probe n s k (bucket_index s k) = Some (Inl (e, s'))"
    by (auto simp: after_eq_Inr after_eq_Inl erase_def split: option.splits sum.splits if_splits)
  from erase_probe_throws [OF this] show ?thesis by simp
next
  case (Reserve m)
  show ?thesis
  proof (cases "size_of_flt (flt_div (flt_of_size m) (m_max_load_factor s))")
    case None
    with Reserve assms show ?thesis by (simp add: after_eq_Inr after_eq_Inl reserve_def)
  next
    case (Some q)
    with Reserve assms have "rehash n s (q + 1) = Some (Inl (e, s'))"
      by (auto simp: after_eq_Inr after_eq_Inl reserve_def Let_def split: option.splits sum.splits if_splits)
    from throws_family(3) [OF this] show ?thesis by simp
  qed
next
  case (Rehash m)
  with assms have "rehash n s m = Some (Inl (e, s'))"
    by (auto simp: after_eq_Inr after_eq_Inl split: option.splits sum.splits)
  from throws_family(3) [OF this] show ?thesis by simp
next
  case (Set_max_load_factor f)
  show ?thesis
  proof (cases "flt_le f flt_0_1 \<or> flt_ge f flt_0_95")
    case True
    with Set_max_load_factor assms show ?thesis
      by (auto simp: after_eq_Inr after_eq_Inl max_load_factor_set_def)
  next
    case False
    with Set_max_load_factor assms have
      "rehash_if_needed n (s\<lparr>m_max_load_factor := f\<rparr>) = Some (Inl (e, s'))"
      by (auto simp: after_eq_Inr after_eq_Inl max_load_factor_set_def split: option.splits sum.splits)
    from throws_family(2) [OF this] show ?thesis by simp
  qed
qed (use assms in auto)

lemma sized_storage:
  assumes "flat_unordered_map_sized bc h = Inr s"
  shows "storage_ok s"
proof -
  from assms have ok: "\<not> max_size < next_pow2 bc"
    and s: "m_buckets s = replicate (unat (next_pow2 bc)) Bucket0"
    by (auto simp: flat_unordered_map_sized_def Let_def split: if_splits)
  show ?thesis
  proof (cases "next_pow2 bc < 2")
    case True
    have "next_pow2 bc = 0"
    proof (cases "unat bc \<le> 2 ^ 63")
      case True
      from next_pow2_spec [OF this] obtain m where m: "1 \<le> m" "m \<le> 63" "next_pow2 bc = 2 ^ m"
        by blast
      then have "unat (next_pow2 bc) = 2 ^ m" by (simp add: unat_pow2)
      with power_increasing [of 1 m "2::nat"] m(1) have "2 \<le> unat (next_pow2 bc)" by simp
      with \<open>next_pow2 bc < 2\<close> show ?thesis by (simp add: word_less_nat_alt)
    next
      case False
      then show ?thesis by (intro next_pow2_overflow) simp
    qed
    with s show ?thesis by (simp add: storage_ok_def)
  next
    case False
    with rehash_count [of bc] ok obtain j where "1 \<le> j" "j \<le> 62" "unat (next_pow2 bc) = 2 ^ j"
      by auto
    with s show ?thesis by (auto simp: storage_ok_def pow2_len_def)
  qed
qed

lemma reachable_storage_ok: "reachable s \<Longrightarrow> storage_ok s"
proof (induction rule: reachable.induct)
  case (default h)
  show ?case by (simp add: storage_ok_def flat_unordered_map_default_def)
next
  case (sized bc h s)
  then show ?case by (rule sized_storage)
next
  case (returned s n c s')
  then show ?case by (auto intro: perform_returned_storage)
next
  case (thrown s n c e s')
  from perform_thrown [OF thrown.hyps(2)] thrown.IH show ?case
    by (auto simp: storage_ok_def)
qed

section \<open>Counts, keys and content by slot\<close>








section \<open>Steps that keep the probe invariant\<close>





lemma walk_cong:
  "length (m_buckets s') = length (m_buckets s) \<Longrightarrow> walk s' i j = walk s i j"
  by (simp add: walk_def)


section \<open>Filling, assigning and marking a slot\<close>






subsection \<open>The probe loop of insertion preserves the table invariant\<close>


lemma of_nat_Suc_minus_1: "(word_of_nat (Suc x) :: size_type) - 1 = word_of_nat x"
  by simp





subsection \<open>Counters, load and fresh storage\<close>















subsection \<open>Insertion and rehashing preserve the invariant and the contents\<close>




subsection \<open>Load after the growth check, and rehashing without growth\<close>










subsection \<open>Correctness of find\<close>










subsection \<open>Erasing a key\<close>

lemma next_pow2_bsize:
  assumes "pow2_len s"
  shows "next_pow2 (bsize s) = bsize s" and "\<not> next_pow2 (bsize s) < 2"
proof -
  from assms obtain j where j: "1 \<le> j" "j \<le> 62" "length (m_buckets s) = 2 ^ j"
    by (auto simp: pow2_len_def)
  have b: "bsize s = 2 ^ j" by (simp add: bsize_def j(3))
  have u: "unat (bsize s) = 2 ^ j" using pow2_len_bsize(1) [OF assms] j(3) by simp
  have "(2::nat) ^ j \<le> 2 ^ 63" using j(2) by (intro power_increasing) simp_all
  then have "unat (bsize s) \<le> 2 ^ 63" using u by simp
  from next_pow2_spec [OF this] obtain m where m: "1 \<le> m" "m \<le> 63" "next_pow2 (bsize s) = 2 ^ m"
    "unat (bsize s) \<le> 2 ^ m" "m = 1 \<or> 2 ^ m < 2 * unat (bsize s)" by blast
  from m(4) have "(2::nat) ^ j \<le> 2 ^ m" unfolding u .
  then have jm: "j \<le> m" by (rule power_le_imp_le_exp [rotated]) simp
  have mj: "m \<le> j"
  proof (cases "m = 1")
    case True with j(1) show ?thesis by simp
  next
    case False
    with m(5) have "(2::nat) ^ m < 2 ^ Suc j" unfolding u by simp
    then have "m < Suc j" by (rule power_less_imp_less_exp [rotated]) simp
    then show ?thesis by simp
  qed
  from jm mj have "m = j" by simp
  with m(3) b show e: "next_pow2 (bsize s) = bsize s" by simp
  have "2 \<le> unat (bsize s)" using pow2_len_bsize(1) [OF assms] pow2_len_bounds(1) [OF assms] by simp
  then show "\<not> next_pow2 (bsize s) < 2" unfolding e by (simp add: word_less_nat_alt)
qed








subsection \<open>The invariant of reachable tables\<close>



















subsection \<open>Further facts about the public members\<close>





subsection \<open>Calls that keep a key\<close>





section \<open>Empty storage\<close>

text \<open>
  C9. On a table whose storage is empty (length 0), \<^verbatim>\<open>find\<close> returns
  \<^verbatim>\<open>nullptr\<close> and \<^verbatim>\<open>erase\<close> returns \<^verbatim>\<open>false\<close> and leaves the table as it is.
  Both do so with no fuel at all and whatever the hash function is: no slot
  index is computed and no bucket is read.
\<close>

theorem find_erase_empty_storage:
  "m_buckets s = [] \<Longrightarrow>
   find_op n s k = Some None \<and> erase n s k = Some (Inr (False, s)) \<and>
   find_op 0 (s\<lparr>m_hasher := h\<rparr>) k = Some None \<and>
   erase 0 (s\<lparr>m_hasher := h\<rparr>) k = Some (Inr (False, s\<lparr>m_hasher := h\<rparr>))"
  by (simp add: find_op_def erase_def)

theorem find_erase_empty_storage_witness:
  "m_buckets new_map = [] \<and>
   find_op 0 new_map 7 = Some None \<and> erase 0 new_map 7 = Some (Inr (False, new_map))"
  using find_erase_empty_storage [of new_map 0 7 hash_int]
  by (simp add: new_map_def flat_unordered_map_default_def)

section \<open>The probe of find\<close>

text \<open>
  C8. On a table with storage, \<^verbatim>\<open>find(k)\<close> starts at the slot \<open>bucket_index s k\<close>. If
  the first \<open>d\<close> slots of the probe sequence are Deleted, or Filled with another
  key, then: when the next slot is Empty, \<^verbatim>\<open>find\<close> returns \<^verbatim>\<open>nullptr\<close> after exactly
  \<open>d + 1\<close> probes; when it is Filled with the key \<open>k\<close>, \<^verbatim>\<open>find\<close> returns a pointer
  to the value of that slot; with \<open>d\<close> probes or fewer it has not returned. The
  table after the call is the table before it.
\<close>

theorem find_walk:
  assumes "m_buckets s \<noteq> []"
    and "\<forall>j<d. state (m_buckets s ! unat (probe_at s (bucket_index s k) j)) = Deleted \<or>
               (state (m_buckets s ! unat (probe_at s (bucket_index s k) j)) = Filled \<and>
                key (m_buckets s ! unat (probe_at s (bucket_index s k) j)) \<noteq> k)"
  shows "(state (m_buckets s ! unat (probe_at s (bucket_index s k) d)) = Empty \<longrightarrow>
           find_op (Suc d + m) s k = Some None) \<and>
         (state (m_buckets s ! unat (probe_at s (bucket_index s k) d)) = Filled \<and>
          key (m_buckets s ! unat (probe_at s (bucket_index s k) d)) = k \<longrightarrow>
           find_op (Suc d + m) s k = Some (Some (probe_at s (bucket_index s k) d))) \<and>
         (n \<le> d \<longrightarrow> find_op n s k = None) \<and>
         (perform n (Find k) s = None \<or> perform n (Find k) s = Some (Inr s))"
proof -
  from assms(2) have sk: "\<forall>j<d. skips s k (unat (probe_at s (bucket_index s k) j))"
    by (simp add: skips_def)
  have "find_op (Suc d + m) s k = find_probe (Suc m) s k (probe_at s (bucket_index s k) d)"
    using find_probe_steps [OF sk, of "Suc m"] assms(1) by (simp add: find_op_def)
  moreover have "n \<le> d \<Longrightarrow> find_op n s k = None"
    using find_probe_short [OF sk] assms(1) by (simp add: find_op_def)
  moreover have "perform n (Find k) s = None \<or> perform n (Find k) s = Some (Inr s)"
    by (cases "find_op n s k") simp_all
  ultimately show ?thesis by (simp add: Let_def)
qed

theorem find_walk_witness:
  "find_op (Suc (Suc (Suc 0))) four_slots 8 = Some (Some 2) \<and>
   find_op (Suc (Suc 0)) four_slots 8 = None \<and>
   find_op (Suc (Suc (Suc (Suc 0)))) four_slots 12 = Some None \<and>
   perform (Suc (Suc (Suc 0))) (Find 8) four_slots = Some (Inr four_slots)"
proof -
  have b: "bucket_index four_slots 8 = 0" "bucket_index four_slots 12 = 0"
    by (simp_all add: ex_defs model_defs)
  have ne: "m_buckets four_slots \<noteq> []" by (simp add: ex_defs)
  have cm: "cap_mask four_slots = 3" by (simp add: ex_defs model_defs)
  have sk8: "\<forall>j<Suc (Suc 0). state (m_buckets four_slots ! unat (probe_at four_slots (bucket_index four_slots 8) j)) = Deleted \<or>
               (state (m_buckets four_slots ! unat (probe_at four_slots (bucket_index four_slots 8) j)) = Filled \<and>
                key (m_buckets four_slots ! unat (probe_at four_slots (bucket_index four_slots 8) j)) \<noteq> 8)"
    by (simp add: b less_Suc_eq ex_defs model_defs)
  have sk12: "\<forall>j<Suc (Suc (Suc 0)). state (m_buckets four_slots ! unat (probe_at four_slots (bucket_index four_slots 12) j)) = Deleted \<or>
               (state (m_buckets four_slots ! unat (probe_at four_slots (bucket_index four_slots 12) j)) = Filled \<and>
                key (m_buckets four_slots ! unat (probe_at four_slots (bucket_index four_slots 12) j)) \<noteq> 12)"
    by (simp add: b less_Suc_eq ex_defs model_defs)
  have f8: "state (m_buckets four_slots ! unat (probe_at four_slots (bucket_index four_slots 8) (Suc (Suc 0)))) = Filled \<and>
          key (m_buckets four_slots ! unat (probe_at four_slots (bucket_index four_slots 8) (Suc (Suc 0)))) = 8"
    by (simp add: b ex_defs model_defs)
  have e12: "state (m_buckets four_slots ! unat (probe_at four_slots (bucket_index four_slots 12) (Suc (Suc (Suc 0))))) = Empty"
    by (simp add: b ex_defs model_defs)
  from find_walk [OF ne sk8, of 0 "Suc (Suc 0)"] f8
  have "find_op (Suc (Suc (Suc 0))) four_slots 8 = Some (Some 2)"
    "find_op (Suc (Suc 0)) four_slots 8 = None"
    by (simp_all add: b cm)
  moreover from find_walk [OF ne sk12, of 0 0] e12
  have "find_op (Suc (Suc (Suc (Suc 0)))) four_slots 12 = Some None"
    by simp
  moreover have "perform (Suc (Suc (Suc 0))) (Find 8) four_slots = Some (Inr four_slots)"
    using calculation(1) by simp
  ultimately show ?thesis by simp
qed

section \<open>Setting the maximal load factor\<close>

text \<open>
  For a finite \<open>f\<close> the setter throws \<^verbatim>\<open>std::invalid_argument\<close>, with the table as
  it was, exactly when \<open>f\<close> is not strictly between \<^verbatim>\<open>0.1f\<close> and \<^verbatim>\<open>0.95f\<close>;
  otherwise it stores \<open>f\<close> and runs the growth check.
\<close>

lemma max_load_factor_set_finite:
  "max_load_factor_set n s (Finite r) =
     (if 13421773 / 2 ^ 27 < r \<and> r < 15938355 / 2 ^ 24
      then rehash_if_needed n (s\<lparr>m_max_load_factor := Finite r\<rparr>)
      else Some (Inl (invalid_argument, s)))"
  by (auto simp: max_load_factor_set_def flt_le_def flt_ge_def flt_0_1_def flt_0_95_def)

text \<open>
  C6 fails on the code. NaN is not in the open interval from 0.1 to 0.95, but both
  comparisons of the guard \<^verbatim>\<open>f <= 0.1f || f >= 0.95f\<close> are false for it: the setter
  does not throw, and NaN becomes the maximal load factor of the table (after
  which no growth check ever fires).
\<close>

theorem max_load_factor_nan:
  "reachable two_slots \<and>
   max_load_factor_set (Suc n) two_slots NaN =
     Some (Inr ((), two_slots\<lparr>m_max_load_factor := NaN\<rparr>)) \<and>
   \<not> (flt_less flt_0_1 NaN \<and> flt_less NaN flt_0_95)"
  using two_slots_reachable
  by (simp add: max_load_factor_set_def flt_le_def flt_ge_def flt_0_1_def flt_0_95_def flt_gt_def
      current_load_def two_slots_def table_of_def flt_of_size_def bsize_def)

section \<open>Erase, then find\<close>

text \<open>
  The growth check runs before an insert, so a table of two slots takes a second
  entry at load 1/2 and is then full. After \<^verbatim>\<open>erase(0)\<close> it has one Deleted and one
  Filled slot and no Empty one, and the loop of \<^verbatim>\<open>find(0)\<close> walks round it for ever.
\<close>

lemma find_probe_two_of_two_erased:
  "find_probe n two_of_two_erased 0 0 = None \<and> find_probe n two_of_two_erased 0 1 = None"
proof (induction n)
  case 0
  show ?case by simp
next
  case (Suc n)
  have "find_probe (Suc n) two_of_two_erased 0 0 = find_probe n two_of_two_erased 0 1"
    by (simp add: ex_defs model_defs)
  moreover have "find_probe (Suc n) two_of_two_erased 0 1 = find_probe n two_of_two_erased 0 0"
    by (simp add: ex_defs model_defs)
  ultimately show ?case using Suc.IH by simp
qed

text \<open>
  C5 fails on the code. The table \<open>two_of_two\<close> is reachable (\<^verbatim>\<open>reserve(1)\<close>, then the
  inserts of the keys 0 and 1); \<^verbatim>\<open>erase(0)\<close> returns \<^verbatim>\<open>true\<close> on it, and the
  \<^verbatim>\<open>find(0)\<close> that follows returns with no amount of fuel: it does not report
  not-found.
\<close>

theorem erase_then_find_hangs:
  "reachable two_of_two \<and>
   erase (Suc 0) two_of_two 0 = Some (Inr (True, two_of_two_erased)) \<and>
   (\<forall>n. find_op n two_of_two_erased 0 = None)"
proof -
  have "bucket_index two_of_two_erased 0 = 0" by (simp add: ex_defs model_defs)
  then have "find_op n two_of_two_erased 0 = None" for n
    using find_probe_two_of_two_erased [of n] by (simp add: find_op_def ex_defs)
  with two_of_two_reachable erase_two_of_two show ?thesis by simp
qed

section \<open>Capacity is a power of two\<close>

text \<open>
  C7, as amended. For every \<open>n\<close> up to \<open>2 ^ 63\<close>, \<^verbatim>\<open>next_pow2(n)\<close> is the smallest
  power of two that is at least \<open>n\<close> and at least 2; for a larger \<open>n\<close> no such value
  fits \<^verbatim>\<open>size_type\<close> and \<^verbatim>\<open>next_pow2(n)\<close> is 0 (which \<^verbatim>\<open>rehash\<close> replaces by 2). The
  storage of a reachable table is empty or has a power of two, at least 2, as its
  length, which is what \<^verbatim>\<open>bucket_count()\<close> returns.
\<close>

theorem capacity_power_of_two:
  "(unat n \<le> 2 ^ 63 \<longrightarrow>
      (\<exists>m. 1 \<le> m \<and> next_pow2 n = 2 ^ m \<and> unat (next_pow2 n) = 2 ^ m \<and> unat n \<le> 2 ^ m \<and>
           (\<forall>j. 1 \<le> j \<and> unat n \<le> 2 ^ j \<longrightarrow> m \<le> j))) \<and>
   (2 ^ 63 < unat n \<longrightarrow> next_pow2 n = 0) \<and>
   (reachable s \<and> m_buckets s \<noteq> [] \<longrightarrow>
      (\<exists>m. 1 \<le> m \<and> m \<le> 62 \<and> bucket_count s = 2 ^ m \<and> length (m_buckets s) = 2 ^ m))"
proof (intro conjI impI)
  assume le: "unat n \<le> 2 ^ 63"
  from next_pow2_spec [OF le] obtain m where m: "1 \<le> m" "m \<le> 63" "next_pow2 n = 2 ^ m"
    "unat n \<le> 2 ^ m" "m = 1 \<or> 2 ^ m < 2 * unat n" by blast
  have "m \<le> j" if "1 \<le> j \<and> unat n \<le> 2 ^ j" for j
  proof (cases "m = 1")
    case True
    with that show ?thesis by simp
  next
    case False
    with m(5) that have "(2::nat) ^ m < 2 ^ Suc j" by simp
    then have "m < Suc j" by (rule power_less_imp_less_exp [rotated]) simp
    then show ?thesis by simp
  qed
  moreover have "unat (next_pow2 n) = 2 ^ m"
    using m(2,3) by (simp add: unat_pow2)
  ultimately show "\<exists>m. 1 \<le> m \<and> next_pow2 n = 2 ^ m \<and> unat (next_pow2 n) = 2 ^ m \<and> unat n \<le> 2 ^ m \<and>
           (\<forall>j. 1 \<le> j \<and> unat n \<le> 2 ^ j \<longrightarrow> m \<le> j)"
    using m by blast
next
  assume "2 ^ 63 < unat n"
  then show "next_pow2 n = 0" by (rule next_pow2_overflow)
next
  assume "reachable s \<and> m_buckets s \<noteq> []"
  with reachable_storage_ok [of s] have "pow2_len s" by (simp add: storage_ok_def)
  then obtain m where "1 \<le> m" "m \<le> 62" "length (m_buckets s) = 2 ^ m"
    by (auto simp: pow2_len_def)
  then show "\<exists>m. 1 \<le> m \<and> m \<le> 62 \<and> bucket_count s = 2 ^ m \<and> length (m_buckets s) = 2 ^ m"
    by (auto simp: bucket_count_def bsize_def)
qed

theorem capacity_power_of_two_witness:
  "unat (17 :: size_type) \<le> 2 ^ 63 \<and>
   (\<exists>m. 1 \<le> m \<and> next_pow2 17 = 2 ^ m \<and> unat (next_pow2 17) = 2 ^ m \<and>
        unat (17 :: size_type) \<le> 2 ^ m \<and>
        (\<forall>j. 1 \<le> j \<and> unat (17 :: size_type) \<le> 2 ^ j \<longrightarrow> m \<le> j)) \<and>
   2 ^ 63 < unat (2 ^ 63 + 2 :: size_type) \<and> next_pow2 (2 ^ 63 + 2) = 0 \<and>
   reachable two_slots \<and> m_buckets two_slots \<noteq> [] \<and>
   (\<exists>m. 1 \<le> m \<and> m \<le> 62 \<and> bucket_count two_slots = 2 ^ m \<and>
        length (m_buckets two_slots) = 2 ^ m)"
proof -
  have a: "unat (17 :: size_type) \<le> 2 ^ 63" by simp
  have b: "2 ^ 63 < unat (2 ^ 63 + 2 :: size_type)" by simp
  have c: "reachable two_slots \<and> m_buckets two_slots \<noteq> []"
    using two_slots_reachable by (simp add: ex_defs)
  from capacity_power_of_two [of 17 two_slots] a c
    capacity_power_of_two [of "2 ^ 63 + 2" two_slots] b
  show ?thesis by blast
qed

text \<open>
  C7 as stated fails at \<open>n = 2 ^ 63 + 1\<close>: the result 0 is no power of two and is
  below \<open>n\<close>.
\<close>

theorem next_pow2_overflow_example:
  "next_pow2 (2 ^ 63 + 1) = 0 \<and> \<not> (2 ^ 63 + 1 \<le> next_pow2 (2 ^ 63 + 1))"
  by (simp add: next_pow2_def)

section \<open>Reserve\<close>








section \<open>Tombstones never exceed half of the capacity\<close>





section \<open>Insert, then find\<close>




end
